theory Spec2Isabelle
  imports
    Main
    "HOL-Library.Char_ord"
    "HOL-Library.List_Lexorder"
    "HOL-Library.Product_Lexorder"
    "HOL-Library.Multiset"
    "HOL-Library.AList"
begin

text \<open>
  The decision core of the identity-sync operator: error classification, the fanout
  observation with its outcome policy, the condition set, the log rate limiter and the
  conditional status patch, embedded as functions over explicit state, and the
  properties of the specification proved about them.
\<close>

section \<open>Shared value types (pkg/errclass, pkg/result)\<close>

text \<open>
  The Go types \<open>ErrorKind\<close>, \<open>ErrorReason\<close> and \<open>result.Reason\<close> are named string
  types, so any string is a value of them; they are modelled as \<open>string\<close> and the
  declared constants as abbreviations of their literals. Go compares strings bytewise,
  which is the lexicographic order on \<open>char list\<close> used here.
  Go's \<open>int\<close>, \<open>int64\<close> and \<open>time.Duration\<close> are modelled as \<open>int\<close>: the counters
  are only incremented by one per observed target and the durations are only compared,
  so the 64-bit bound is never reached by the operations below. An instant
  (\<open>time.Time\<close>) is an \<open>int\<close> on the time line, \<open>t.Add d\<close> is \<open>t + d\<close> and
  \<open>t.Before u\<close> is \<open>t < u\<close>.
\<close>

type_synonym ErrorKind = string
type_synonym ErrorReason = string
type_synonym Reason = string
type_synonym Duration = int
type_synonym Time = int

abbreviation KindTransient :: ErrorKind where "KindTransient \<equiv> ''Transient''"
abbreviation KindTerminal :: ErrorKind where "KindTerminal \<equiv> ''Terminal''"
abbreviation KindConflict :: ErrorKind where "KindConflict \<equiv> ''Conflict''"
abbreviation KindConfig :: ErrorKind where "KindConfig \<equiv> ''Config''"

abbreviation errclass_ReasonForbidden :: ErrorReason where "errclass_ReasonForbidden \<equiv> ''Forbidden''"
abbreviation errclass_ReasonConflict :: ErrorReason where "errclass_ReasonConflict \<equiv> ''Conflict''"
abbreviation errclass_ReasonNotFound :: ErrorReason where "errclass_ReasonNotFound \<equiv> ''NotFound''"
abbreviation errclass_ReasonTimeout :: ErrorReason where "errclass_ReasonTimeout \<equiv> ''Timeout''"
abbreviation errclass_ReasonInvalid :: ErrorReason where "errclass_ReasonInvalid \<equiv> ''Invalid''"
abbreviation errclass_ReasonOther :: ErrorReason where "errclass_ReasonOther \<equiv> ''Other''"

abbreviation ReasonAPIServerError :: Reason where "ReasonAPIServerError \<equiv> ''APIServerError''"
abbreviation ReasonPartialFailure :: Reason where "ReasonPartialFailure \<equiv> ''PartialFailure''"
abbreviation ReasonInvalidSpec :: Reason where "ReasonInvalidSpec \<equiv> ''InvalidSpec''"
abbreviation ReasonForbidden :: Reason where "ReasonForbidden \<equiv> ''Forbidden''"
abbreviation ReasonConflict :: Reason where "ReasonConflict \<equiv> ''Conflict''"
abbreviation ReasonNotFound :: Reason where "ReasonNotFound \<equiv> ''NotFound''"
abbreviation ReasonTimeout :: Reason where "ReasonTimeout \<equiv> ''Timeout''"
abbreviation ReasonUnknown :: Reason where "ReasonUnknown \<equiv> ''Unknown''"

datatype Outcome = OutcomeSuccess | OutcomePartial | OutcomeFailed

text \<open>\<open>NotFoundPolicy\<close> is a Go \<open>int\<close> type with two constants numbered by \<open>iota\<close>.\<close>

type_synonym NotFoundPolicy = int

abbreviation (input) NotFoundAsConfig :: NotFoundPolicy where "NotFoundAsConfig \<equiv> 0"
abbreviation (input) NotFoundAsTransient :: NotFoundPolicy where "NotFoundAsTransient \<equiv> 1"

text \<open>
  A Go \<open>error\<close> value is seen by the code only through the library predicates it calls
  on it (\<open>errors.Is\<close>, the \<open>apierrors.Is...\<close> helpers, \<open>errors.As\<close> to a
  \<open>StatusError\<close> and its numeric code) and through \<open>Error()\<close>. The record holds what
  each of them answers; \<open>nil\<close> is \<open>None\<close> of \<open>go_error option\<close>.
\<close>

record go_error =
  Error :: string
  IsDeadlineExceeded :: bool
  IsCanceled :: bool
  IsConflict :: bool
  IsAlreadyExists :: bool
  IsForbidden :: bool
  IsUnauthorized :: bool
  IsInvalid :: bool
  IsNotFound :: bool
  IsTimeout :: bool
  IsServerTimeout :: bool
  IsTooManyRequests :: bool
  IsInternalError :: bool
  StatusCode :: "int option"

record Decision =
  RequeueAfter :: Duration
  Outcome :: Outcome
  Reason :: Reason
  Msg :: string
  Err :: "go_error option"

section \<open>Fanout observation and outcome policy (internal/controller/fanout_observation.go)\<close>

record Policy =
  TransientDelay :: Duration
  PermanentDelay :: Duration

definition DefaultPolicy :: Policy where
  "DefaultPolicy = \<lparr>TransientDelay = 2 * 60 * 1000000000, PermanentDelay = 10 * 60 * 1000000000\<rparr>"

record Sample =
  s_Namespace :: string
  s_Message :: string
  s_Reason :: ErrorReason
  s_Kind :: ErrorKind

record ReasonCount =
  rc_Reason :: ErrorReason
  rc_Count :: int

type_synonym ReasonCounts = "ReasonCount list"

text \<open>
  The map \<open>Reasons\<close> is an association list with one pair per key; the order of the
  pairs stands for the order in which a \<open>range\<close> loop happens to visit the map, which
  Go leaves unspecified. A \<open>nil\<close> map and an empty map are both \<open>[]\<close>: the code only
  reads their length and assigns after \<open>make\<close>.
\<close>

record Observation =
  Reasons :: "(ErrorReason \<times> int) list"
  Samples :: "Sample list"
  MaxSample :: int
  Success :: int
  Failed :: int
  Total :: int
  HasTransient :: bool
  HasPermanent :: bool




definition ErrorReasonCounts :: "Observation \<Rightarrow> ReasonCounts" where
  "ErrorReasonCounts obs =
     map (\<lambda>(r, c). \<lparr>rc_Reason = r, rc_Count = c\<rparr>) (filter (\<lambda>(r, c). c \<noteq> 0) (Reasons obs))"

definition mapErrReasonToResultReason :: "ErrorReason \<Rightarrow> Reason" where
  "mapErrReasonToResultReason reason =
     (if reason = errclass_ReasonNotFound then ReasonNotFound
      else if reason = errclass_ReasonForbidden then ReasonForbidden
      else if reason = errclass_ReasonInvalid then ReasonInvalidSpec
      else if reason = errclass_ReasonConflict then ReasonConflict
      else if reason = errclass_ReasonTimeout then ReasonTimeout
      else if reason = errclass_ReasonOther then ReasonAPIServerError
      else ReasonUnknown)"

definition errReasonPriority :: "ErrorReason \<Rightarrow> int" where
  "errReasonPriority r =
     (if r = errclass_ReasonInvalid then 60
      else if r = errclass_ReasonForbidden then 50
      else if r = errclass_ReasonNotFound then 40
      else if r = errclass_ReasonConflict then 30
      else if r = errclass_ReasonTimeout then 20
      else if r = errclass_ReasonOther then 10
      else 0)"

text \<open>The \<open>less\<close> closure handed to \<open>sort.Slice\<close> by \<open>SortInPlace\<close>.\<close>

definition rc_less :: "ReasonCount \<Rightarrow> ReasonCount \<Rightarrow> bool" where
  "rc_less a b =
     (if rc_Count a \<noteq> rc_Count b then rc_Count a > rc_Count b
      else let pi = errReasonPriority (rc_Reason a); pj = errReasonPriority (rc_Reason b)
           in if pi \<noteq> pj then pi > pj else rc_Reason a < rc_Reason b)"

text \<open>
  \<open>sort.Slice\<close> promises a permutation ordered by \<open>less\<close> and no stability. The model
  sorts by insertion; on the entries of a map, whose reasons are pairwise different,
  \<open>less\<close> never ties, so every sorting algorithm gives this same list (lemma
  \<open>SortInPlace_unique\<close> below).
\<close>

fun insert_by :: "('a \<Rightarrow> 'a \<Rightarrow> bool) \<Rightarrow> 'a \<Rightarrow> 'a list \<Rightarrow> 'a list" where
  "insert_by lt x [] = [x]"
| "insert_by lt x (y # ys) = (if lt x y then x # y # ys else y # insert_by lt x ys)"

definition sort_Slice :: "('a \<Rightarrow> 'a \<Rightarrow> bool) \<Rightarrow> 'a list \<Rightarrow> 'a list" where
  "sort_Slice lt xs = foldr (insert_by lt) xs []"

definition SortInPlace :: "ReasonCounts \<Rightarrow> ReasonCounts" where
  "SortInPlace rc = sort_Slice rc_less rc"

definition PrimaryReason :: "Observation \<Rightarrow> Reason" where
  "PrimaryReason obs =
     (if length (Reasons obs) = 0 then ReasonUnknown
      else let reasons = ErrorReasonCounts obs
           in if length reasons = 0 then ReasonUnknown
              else (case SortInPlace reasons of
                      [] \<Rightarrow> ReasonUnknown
                    | primary # _ \<Rightarrow> mapErrReasonToResultReason (rc_Reason primary)))"

definition Decide :: "Policy \<Rightarrow> Observation \<Rightarrow> Decision" where
  "Decide p obs =
     (let outcome = (if Total obs = 0 then OutcomeSuccess
                     else if Success obs = Total obs then OutcomeSuccess
                     else if Success obs = 0 then OutcomeFailed
                     else OutcomePartial);
          dec = \<lparr>RequeueAfter = 0, Outcome = outcome, Reason = PrimaryReason obs,
                 Msg = [], Err = None\<rparr>
      in if outcome \<noteq> OutcomeSuccess
         then (if HasTransient obs then dec\<lparr>RequeueAfter := TransientDelay p\<rparr>
               else dec\<lparr>RequeueAfter := PermanentDelay p\<rparr>)
         else dec)"

subsection \<open>The ordering of reason counts as the specification words it\<close>



text \<open>A pass with six failures, three timeouts and three invalid specs, and two successes.\<close>

definition obs_example :: Observation where
  "obs_example = \<lparr>Reasons = [(errclass_ReasonTimeout, 3), (errclass_ReasonInvalid, 3)],
     Samples = [], MaxSample = 50, Success = 2, Failed = 6, Total = 8,
     HasTransient = True, HasPermanent = True\<rparr>"

section \<open>Error classification (pkg/errclass/classify.go)\<close>

definition ClassifyError :: "go_error option \<Rightarrow> NotFoundPolicy \<Rightarrow> ErrorKind \<times> ErrorReason" where
  "ClassifyError err notFoundPolicy =
     (case err of
        None \<Rightarrow> ([], [])
      | Some e \<Rightarrow>
          if IsDeadlineExceeded e then (KindTransient, errclass_ReasonTimeout)
          else if IsCanceled e then (KindTerminal, errclass_ReasonOther)
          else if IsConflict e then (KindConflict, errclass_ReasonConflict)
          else if IsAlreadyExists e then (KindConflict, errclass_ReasonConflict)
          else if IsForbidden e \<or> IsUnauthorized e then (KindConfig, errclass_ReasonForbidden)
          else if IsInvalid e then (KindConfig, errclass_ReasonInvalid)
          else if IsNotFound e then
            (if notFoundPolicy = NotFoundAsTransient
             then (KindTransient, errclass_ReasonNotFound)
             else (KindConfig, errclass_ReasonNotFound))
          else if IsTimeout e \<or> IsServerTimeout e \<or> IsTooManyRequests e
            then (KindTransient, errclass_ReasonTimeout)
          else if IsInternalError e then (KindTransient, errclass_ReasonOther)
          else (case StatusCode e of
                  Some code \<Rightarrow>
                    if code = 0 \<or> (code \<ge> 500 \<and> code \<le> 599)
                    then (KindTransient, errclass_ReasonOther)
                    else (KindTransient, errclass_ReasonOther)
                | None \<Rightarrow> (KindTransient, errclass_ReasonOther)))"

subsection \<open>The classification rules as the specification lists them\<close>

text \<open>
  The specification gives an ordered table of rules, the first matching one deciding,
  and a default for an error no rule matches.
\<close>

type_synonym classify_rule = "(go_error \<Rightarrow> bool) \<times> (ErrorKind \<times> ErrorReason)"

definition spec_rules :: "NotFoundPolicy \<Rightarrow> classify_rule list" where
  "spec_rules notFoundPolicy =
     [(IsDeadlineExceeded, (KindTransient, errclass_ReasonTimeout)),
      (IsCanceled, (KindTerminal, errclass_ReasonOther)),
      (\<lambda>e. IsConflict e \<or> IsAlreadyExists e, (KindConflict, errclass_ReasonConflict)),
      (\<lambda>e. IsForbidden e \<or> IsUnauthorized e, (KindConfig, errclass_ReasonForbidden)),
      (IsInvalid, (KindConfig, errclass_ReasonInvalid)),
      (IsNotFound, (if notFoundPolicy = NotFoundAsTransient then KindTransient else KindConfig,
                    errclass_ReasonNotFound)),
      (\<lambda>e. IsTimeout e \<or> IsServerTimeout e \<or> IsTooManyRequests e,
         (KindTransient, errclass_ReasonTimeout)),
      (IsInternalError, (KindTransient, errclass_ReasonOther)),
      (\<lambda>e. case StatusCode e of None \<Rightarrow> False
                | Some code \<Rightarrow> code = 0 \<or> (500 \<le> code \<and> code \<le> 599),
         (KindTransient, errclass_ReasonOther))]"

fun first_match :: "classify_rule list \<Rightarrow> go_error \<Rightarrow> ErrorKind \<times> ErrorReason" where
  "first_match [] e = (KindTransient, errclass_ReasonOther)"
| "first_match ((applies, verdict) # rules) e =
     (if applies e then verdict else first_match rules e)"

definition classify_spec :: "go_error option \<Rightarrow> NotFoundPolicy \<Rightarrow> ErrorKind \<times> ErrorReason" where
  "classify_spec err notFoundPolicy =
     (case err of None \<Rightarrow> ([], []) | Some e \<Rightarrow> first_match (spec_rules notFoundPolicy) e)"

text \<open>An error that only the not-found helper recognises, with HTTP status 404.\<close>

definition err_not_found :: go_error where
  "err_not_found =
     \<lparr>Error = ''secret token not found'', IsDeadlineExceeded = False, IsCanceled = False,
      IsConflict = False, IsAlreadyExists = False, IsForbidden = False,
      IsUnauthorized = False, IsInvalid = False, IsNotFound = True, IsTimeout = False,
      IsServerTimeout = False, IsTooManyRequests = False, IsInternalError = False,
      StatusCode = Some 404\<rparr>"

section \<open>Condition set (pkg/status/conditions.go)\<close>

text \<open>
  \<open>metav1.Condition\<close>; \<open>ConditionStatus\<close> is a string type. The live map of a condition
  set is an association list with one pair per key, as for \<open>Reasons\<close> above.
\<close>

record Condition =
  c_Type :: string
  c_Status :: string
  c_Reason :: string
  c_Message :: string
  c_ObservedGeneration :: int
  c_LastTransitionTime :: Time

abbreviation ConditionTrue :: string where "ConditionTrue \<equiv> ''True''"
abbreviation ConditionFalse :: string where "ConditionFalse \<equiv> ''False''"
abbreviation ConditionUnknown :: string where "ConditionUnknown \<equiv> ''Unknown''"

record ConditionSet =
  original :: "Condition list"
  conditions :: "(string \<times> Condition) list"
  reconcileTime :: Time
  observedGeneration :: int

definition NewConditionSet :: "Condition list \<Rightarrow> int \<Rightarrow> Time \<Rightarrow> ConditionSet" where
  "NewConditionSet conds generation reconcile_time =
     \<lparr>original = conds,
      conditions = foldl (\<lambda>byType c. AList.update (c_Type c) c byType) [] conds,
      reconcileTime = reconcile_time,
      observedGeneration = generation\<rparr>"

definition Conditions :: "ConditionSet \<Rightarrow> Condition list" where
  "Conditions cs = sort_Slice (\<lambda>a b. c_Type a < c_Type b) (map snd (conditions cs))"

definition isSame :: "Condition \<Rightarrow> Condition \<Rightarrow> bool" where
  "isSame prev next \<longleftrightarrow>
     c_Status prev = c_Status next \<and>
     c_Reason prev = c_Reason next \<and>
     c_Message prev = c_Message next \<and>
     c_ObservedGeneration prev = c_ObservedGeneration next"

definition Set_cond :: "ConditionSet \<Rightarrow> string \<Rightarrow> string \<Rightarrow> string \<Rightarrow> string \<Rightarrow> ConditionSet" where
  "Set_cond cs condType status reason message =
     (let next = \<lparr>c_Type = condType, c_Status = status, c_Reason = reason,
                  c_Message = message, c_ObservedGeneration = observedGeneration cs,
                  c_LastTransitionTime = reconcileTime cs\<rparr>
      in case map_of (conditions cs) condType of
           Some prev \<Rightarrow>
             (let next1 = (if c_Status prev = c_Status next
                           then next\<lparr>c_LastTransitionTime := c_LastTransitionTime prev\<rparr>
                           else next)
              in if isSame prev next1 then cs
                 else cs\<lparr>conditions := AList.update condType next1 (conditions cs)\<rparr>)
         | None \<Rightarrow> cs\<lparr>conditions := AList.update condType next (conditions cs)\<rparr>)"

definition IsConditionTrue :: "ConditionSet \<Rightarrow> string \<Rightarrow> bool" where
  "IsConditionTrue cs condType =
     (case map_of (conditions cs) condType of
        Some condition \<Rightarrow> c_Status condition = ConditionTrue
      | None \<Rightarrow> False)"

fun Changed_loop :: "(string \<times> Condition) list \<Rightarrow> Condition list \<Rightarrow> bool" where
  "Changed_loop live [] = False"
| "Changed_loop live (prev # rest) =
     (case map_of live (c_Type prev) of
        None \<Rightarrow> True
      | Some next \<Rightarrow> if \<not> isSame prev next then True else Changed_loop live rest)"

definition Changed :: "ConditionSet \<Rightarrow> bool" where
  "Changed cs =
     (if length (original cs) \<noteq> length (conditions cs) then True
      else Changed_loop (conditions cs) (original cs))"

text \<open>A pass: the loaded conditions, then the \<open>Set\<close> calls in order.\<close>

type_synonym set_call = "string \<times> string \<times> string \<times> string"

fun Set_calls :: "ConditionSet \<Rightarrow> set_call list \<Rightarrow> ConditionSet" where
  "Set_calls cs [] = cs"
| "Set_calls cs ((condType, status, reason, message) # calls) =
     Set_calls (Set_cond cs condType status reason message) calls"

subsection \<open>Example values and invariants used by the properties below\<close>

definition err_unrecognized :: go_error where
  "err_unrecognized =
     \<lparr>Error = ''connection reset by peer'', IsDeadlineExceeded = False, IsCanceled = False,
      IsConflict = False, IsAlreadyExists = False, IsForbidden = False,
      IsUnauthorized = False, IsInvalid = False, IsNotFound = False, IsTimeout = False,
      IsServerTimeout = False, IsTooManyRequests = False, IsInternalError = False,
      StatusCode = None\<rparr>"

text \<open>The live map holds one entry per type, stored under its own type.\<close>

definition typed_alist :: "(string \<times> Condition) list \<Rightarrow> bool" where
  "typed_alist m \<longleftrightarrow> distinct (map fst m) \<and> (\<forall>(k, c) \<in> set m. c_Type c = k)"

definition cond_ready :: Condition where
  "cond_ready = \<lparr>c_Type = ''Ready'', c_Status = ConditionTrue, c_Reason = ''Ok'',
     c_Message = ''old'', c_ObservedGeneration = 5, c_LastTransitionTime = 100\<rparr>"

definition cs_example :: ConditionSet where
  "cs_example = NewConditionSet [cond_ready] 5 200"

section \<open>Log rate limiter (pkg/logging)\<close>

text \<open>
  The table \<open>entries\<close> maps a fingerprint to its next-allowed instant; it is an
  association list with one pair per key. The mutex makes every \<open>Allow\<close> one atomic
  step, so a call is a function from the limiter before to the limiter after.
\<close>

type_synonym entries = "(string \<times> Time) list"

record Limiter =
  l_size :: int
  l_entries :: entries

definition defaultSize :: int where
  "defaultSize = 10000"

definition NewLimiter :: "int \<Rightarrow> Limiter" where
  "NewLimiter sz = \<lparr>l_size = (if sz \<le> 0 then defaultSize else sz), l_entries = []\<rparr>"

text \<open>
  \<open>for fp := range l.entries { delete(l.entries, fp); break }\<close> deletes the key the
  loop visits first, which Go does not specify. A \<open>range_choice\<close> names the position
  of that key in the table as it stands; every behaviour of the loop is the behaviour
  under some choice. On an empty table the loop body never runs.
\<close>

type_synonym range_choice = "entries \<Rightarrow> nat"

definition range_first :: "range_choice \<Rightarrow> entries \<Rightarrow> string option" where
  "range_first pick es =
     (if es = [] then None else Some (fst (es ! (pick es mod length es))))"

text \<open>
  The eviction loop \<open>for len(l.entries) > l.size\<close>. With a negative size and an empty
  table it never exits; \<open>None\<close> is that run.
\<close>

partial_function (option) evict_loop :: "range_choice \<Rightarrow> int \<Rightarrow> entries \<Rightarrow> entries option" where
  "evict_loop pick sz es =
     (if int (length es) > sz
      then evict_loop pick sz
             (case range_first pick es of None \<Rightarrow> es | Some fp \<Rightarrow> AList.delete fp es)
      else Some es)"

text \<open>The first loop of \<open>prune\<close> deletes every entry with \<open>!now.Before(nextAllowed)\<close>.\<close>

definition unexpired :: "Time \<Rightarrow> entries \<Rightarrow> entries" where
  "unexpired now es = filter (\<lambda>(fp, nextAllowed). \<not> (\<not> now < nextAllowed)) es"

definition prune :: "range_choice \<Rightarrow> Limiter \<Rightarrow> Time \<Rightarrow> Limiter option" where
  "prune pick l now =
     map_option (\<lambda>es. l\<lparr>l_entries := es\<rparr>)
       (evict_loop pick (l_size l) (unexpired now (l_entries l)))"

definition Allow ::
  "range_choice \<Rightarrow> Limiter \<Rightarrow> string \<Rightarrow> Time \<Rightarrow> Duration \<Rightarrow> (bool \<times> Limiter) option" where
  "Allow pick l fingerprint now interval =
     (if interval \<le> 0 then Some (True, l)
      else if (case map_of (l_entries l) fingerprint of
                 Some nextAllowed \<Rightarrow> now < nextAllowed
               | None \<Rightarrow> False)
      then Some (False, l)
      else let l1 = l\<lparr>l_entries := AList.update fingerprint (now + interval) (l_entries l)\<rparr>
           in if int (length (l_entries l1)) > l_size l1
              then map_option (\<lambda>l2. (True, l2)) (prune pick l1 now)
              else Some (True, l1))"

text \<open>What \<open>NewLimiter\<close> establishes and every \<open>Allow\<close> keeps.\<close>

definition limiter_inv :: "Limiter \<Rightarrow> bool" where
  "limiter_inv l \<longleftrightarrow>
     0 < l_size l \<and> distinct (map fst (l_entries l)) \<and> int (length (l_entries l)) \<le> l_size l"

section \<open>Log formatting of samples (internal/controller/logging.go)\<close>




section \<open>Status persistence (internal/controller/controller.go)\<close>

abbreviation ConditionReady :: string where "ConditionReady \<equiv> ''Ready''"
abbreviation ConditionDegraded :: string where "ConditionDegraded \<equiv> ''Degraded''"
abbreviation ConditionReferenceSecretReady :: string where
  "ConditionReferenceSecretReady \<equiv> ''ReferenceSecretReady''"
abbreviation ReasonReconciled :: string where "ReasonReconciled \<equiv> ''Reconciled''"
abbreviation ReasonSecretAvailable :: string where "ReasonSecretAvailable \<equiv> ''SecretAvailable''"

definition markReady :: "ConditionSet \<Rightarrow> string \<Rightarrow> ConditionSet" where
  "markReady cs message =
     Set_cond (Set_cond cs ConditionReady ConditionTrue ReasonReconciled message)
       ConditionDegraded ConditionFalse ReasonReconciled message"

definition markSecretAvailable :: "ConditionSet \<Rightarrow> string \<Rightarrow> ConditionSet" where
  "markSecretAvailable cs message =
     Set_cond cs ConditionReferenceSecretReady ConditionTrue ReasonSecretAvailable message"

text \<open>The status of the policy object as \<open>patchStatusIfChanged\<close> reads and writes it.\<close>

record IdentityStatus =
  st_Conditions :: "Condition list"
  ObservedSourceSecretHash :: string

text \<open>
  The result of \<open>patchStatusIfChanged\<close>: its two return values, the status it leaves in
  the object, and the objects it handed to \<open>client.Status().Patch\<close>, in order.
\<close>

record patch_outcome =
  patched :: bool
  patch_err :: "go_error option"
  status_after :: IdentityStatus
  patch_calls :: "IdentityStatus list"

text \<open>
  \<open>meta.SetStatusCondition\<close> and the client's \<open>Patch\<close> belong to libraries outside the
  repository; they are parameters: \<open>setStatusCondition\<close> merges one condition into a
  list, \<open>client_Patch\<close> answers \<open>nil\<close> or an error for the object it is given.
  \<open>fmt.Errorf\<close> with \<open>%w\<close> wraps the error: a new message around the same cause.
\<close>

definition patchStatusIfChanged ::
  "(Condition list \<Rightarrow> Condition \<Rightarrow> Condition list) \<Rightarrow> (IdentityStatus \<Rightarrow> go_error option) \<Rightarrow>
   IdentityStatus \<Rightarrow> ConditionSet option \<Rightarrow> string \<Rightarrow> patch_outcome" where
  "patchStatusIfChanged setStatusCondition client_Patch identity cs desiredHash =
     (let condChanged = (case cs of None \<Rightarrow> False | Some c \<Rightarrow> Changed c);
          hashChanged = (desiredHash \<noteq> [] \<and> ObservedSourceSecretHash identity \<noteq> desiredHash)
      in if \<not> condChanged \<and> \<not> hashChanged
         then \<lparr>patched = False, patch_err = None, status_after = identity, patch_calls = []\<rparr>
         else
           let identity1 = (if hashChanged
                            then identity\<lparr>ObservedSourceSecretHash := desiredHash\<rparr>
                            else identity);
               identity2 = (case cs of
                              None \<Rightarrow> identity1
                            | Some c \<Rightarrow> identity1\<lparr>st_Conditions :=
                                foldl setStatusCondition (st_Conditions identity1) (Conditions c)\<rparr>)
           in case client_Patch identity2 of
                Some err \<Rightarrow>
                  (let (kind, reason) = ClassifyError (Some err) NotFoundAsTransient
                   in \<lparr>patched = False,
                       patch_err = Some (err\<lparr>Error := ''status patch failed ('' @ kind @ ''/'' @
                                      reason @ ''): '' @ Error err\<rparr>),
                       status_after = identity2, patch_calls = [identity2]\<rparr>)
              | None \<Rightarrow>
                  \<lparr>patched = True, patch_err = None, status_after = identity2,
                   patch_calls = [identity2]\<rparr>)"

text \<open>Limiters used as concrete inputs below; \<open>Allow_each\<close> makes one call per instant, in order.\<close>

definition lim_a :: Limiter where
  "lim_a = \<lparr>l_size = 1, l_entries = [(''a'', 3600)]\<rparr>"

fun Allow_each ::
  "range_choice \<Rightarrow> Limiter \<Rightarrow> string \<Rightarrow> Duration \<Rightarrow> Time list \<Rightarrow> (bool list \<times> Limiter) option" where
  "Allow_each pick l fp interval [] = Some ([], l)"
| "Allow_each pick l fp interval (t # ts) =
     (case Allow pick l fp t interval of
        None \<Rightarrow> None
      | Some (b, l1) \<Rightarrow> map_option (\<lambda>(bs, l2). (b # bs, l2)) (Allow_each pick l1 fp interval ts))"

definition lim_fp :: Limiter where
  "lim_fp = \<lparr>l_size = 10, l_entries = [(''fp'', 110)]\<rparr>"

definition lim_expired :: Limiter where
  "lim_expired = \<lparr>l_size = 1, l_entries = [(''expired'', 110)]\<rparr>"

definition lim_new :: Limiter where
  "lim_new = \<lparr>l_size = 1, l_entries = [(''new'', 130)]\<rparr>"

definition lim_fp2 :: Limiter where
  "lim_fp2 = \<lparr>l_size = 10, l_entries = [(''fp'', 120)]\<rparr>"





text \<open>
  A policy whose last pass succeeded at generation 7, and the condition set of the next
  successful pass over it: \<open>finish\<close> marks the secret available and the policy ready.
\<close>

definition conds_ready :: "Condition list" where
  "conds_ready =
     [\<lparr>c_Type = ConditionDegraded, c_Status = ConditionFalse, c_Reason = ReasonReconciled,
       c_Message = ''Reconcile completed'', c_ObservedGeneration = 7, c_LastTransitionTime = 100\<rparr>,
      \<lparr>c_Type = ConditionReady, c_Status = ConditionTrue, c_Reason = ReasonReconciled,
       c_Message = ''Reconcile completed'', c_ObservedGeneration = 7, c_LastTransitionTime = 100\<rparr>,
      \<lparr>c_Type = ConditionReferenceSecretReady, c_Status = ConditionTrue,
       c_Reason = ReasonSecretAvailable, c_Message = ''Reference secret available'',
       c_ObservedGeneration = 7, c_LastTransitionTime = 100\<rparr>]"

definition status_ready :: IdentityStatus where
  "status_ready = \<lparr>st_Conditions = conds_ready, ObservedSourceSecretHash = ''hashA''\<rparr>"

definition cs_pass :: ConditionSet where
  "cs_pass = markReady (markSecretAvailable (NewConditionSet conds_ready 7 200)
               ''Reference secret available'') ''Reconcile completed''"

section \<open>Verified properties\<close>

subsection \<open>Reason ordering, primary reason and outcome policy\<close>



lemma mset_insert_by: "mset (insert_by lt x xs) = add_mset x (mset xs)"
  by (induction xs) auto

lemma mset_sort_Slice: "mset (sort_Slice lt xs) = mset xs"
  by (induction xs) (auto simp: sort_Slice_def mset_insert_by)

lemma set_insert_by: "set (insert_by lt x xs) = insert x (set xs)"
  by (induction xs) auto
















text \<open>
  Claim C1. \<open>Decide\<close> returns the outcome Success when \<open>Total = 0\<close> or
  \<open>Success = Total\<close>, otherwise Failed when \<open>Success = 0\<close>, and Partial otherwise; for
  an expected target count \<open>Total\<close> that is not negative this is the specification's
  wording, Failed when \<open>Success = 0\<close> and \<open>Total > 0\<close>. Its reason is \<open>PrimaryReason\<close>
  of the observation; its requeue delay is 0 on Success, otherwise \<open>TransientDelay\<close>
  whenever \<open>HasTransient\<close> holds (whatever \<open>HasPermanent\<close> is), else \<open>PermanentDelay\<close>.
\<close>

theorem Decide_outcome_reason_requeue:
  "Outcome (Decide p obs) =
     (if Total obs = 0 \<or> Success obs = Total obs then OutcomeSuccess
      else if Success obs = 0 then OutcomeFailed
      else OutcomePartial) \<and>
   (0 \<le> Total obs \<longrightarrow>
      Outcome (Decide p obs) =
        (if Total obs = 0 \<or> Success obs = Total obs then OutcomeSuccess
         else if Success obs = 0 \<and> Total obs > 0 then OutcomeFailed
         else OutcomePartial)) \<and>
   Reason (Decide p obs) = PrimaryReason obs \<and>
   RequeueAfter (Decide p obs) =
     (if Outcome (Decide p obs) = OutcomeSuccess then 0
      else if HasTransient obs then TransientDelay p
      else PermanentDelay p)"
  by (auto simp: Decide_def Let_def)

theorem Decide_outcome_reason_requeue_witness:
  "0 \<le> Total obs_example \<and>
   HasTransient obs_example \<and> HasPermanent obs_example \<and>
   Outcome (Decide DefaultPolicy obs_example) = OutcomePartial \<and>
   RequeueAfter (Decide DefaultPolicy obs_example) = TransientDelay DefaultPolicy"
proof -
  note t = Decide_outcome_reason_requeue [of DefaultPolicy obs_example]
  have h: "0 \<le> Total obs_example" "HasTransient obs_example" "HasPermanent obs_example"
    "Total obs_example \<noteq> 0" "Success obs_example \<noteq> Total obs_example"
    "Success obs_example \<noteq> 0"
    by (simp_all add: obs_example_def)
  have o: "Outcome (Decide DefaultPolicy obs_example) = OutcomePartial" using t h by simp
  then have "RequeueAfter (Decide DefaultPolicy obs_example) = TransientDelay DefaultPolicy"
    using t h by simp
  then show ?thesis using h o by simp
qed

subsection \<open>Error classification\<close>

lemma ClassifyError_refines: "ClassifyError err pol = classify_spec err pol"
  by (cases err) (auto simp: ClassifyError_def classify_spec_def spec_rules_def split: option.splits)

lemma ClassifyError_not_found:
  assumes "\<not> IsDeadlineExceeded e" "\<not> IsCanceled e" "\<not> IsConflict e" "\<not> IsAlreadyExists e"
    "\<not> IsForbidden e" "\<not> IsUnauthorized e" "\<not> IsInvalid e" "IsNotFound e"
  shows "ClassifyError (Some e) pol =
    (if pol = NotFoundAsTransient then KindTransient else KindConfig, errclass_ReasonNotFound)"
  using assms by (simp add: ClassifyError_def)

lemma ClassifyError_default:
  assumes "\<forall>(applies, verdict) \<in> set (spec_rules pol). \<not> applies e"
  shows "ClassifyError (Some e) pol = (KindTransient, errclass_ReasonOther)"
  using assms by (simp add: ClassifyError_refines classify_spec_def spec_rules_def)

text \<open>
  Claim C3. \<open>ClassifyError\<close> is a function of the error and the policy alone. It maps
  \<open>nil\<close> to the empty pair and every other error to the verdict of the first rule of
  the specification's ordered table that applies, and to (Transient, Other) when none
  applies. An error that reaches the not-found rule (no earlier rule applies) is
  classified (Transient, NotFound) under \<open>NotFoundAsTransient\<close> and (Config, NotFound)
  under every other policy.
\<close>

theorem ClassifyError_first_matching_rule:
  "ClassifyError err pol = classify_spec err pol \<and>
   ClassifyError None pol = ([], []) \<and>
   (\<not> IsDeadlineExceeded e \<and> \<not> IsCanceled e \<and> \<not> IsConflict e \<and> \<not> IsAlreadyExists e \<and>
    \<not> IsForbidden e \<and> \<not> IsUnauthorized e \<and> \<not> IsInvalid e \<and> IsNotFound e \<longrightarrow>
      ClassifyError (Some e) NotFoundAsTransient = (KindTransient, errclass_ReasonNotFound) \<and>
      (pol \<noteq> NotFoundAsTransient \<longrightarrow>
         ClassifyError (Some e) pol = (KindConfig, errclass_ReasonNotFound))) \<and>
   ((\<forall>(applies, verdict) \<in> set (spec_rules pol). \<not> applies e') \<longrightarrow>
      ClassifyError (Some e') pol = (KindTransient, errclass_ReasonOther))"
  using ClassifyError_refines [of err pol] ClassifyError_default [of pol e']
    ClassifyError_not_found [of e pol] ClassifyError_not_found [of e NotFoundAsTransient]
  by (simp add: ClassifyError_def)

theorem ClassifyError_first_matching_rule_witness:
  "IsNotFound err_not_found \<and> \<not> IsInvalid err_not_found \<and>
   ClassifyError (Some err_not_found) NotFoundAsTransient = (KindTransient, errclass_ReasonNotFound) \<and>
   ClassifyError (Some err_not_found) NotFoundAsConfig = (KindConfig, errclass_ReasonNotFound) \<and>
   ClassifyError (Some err_unrecognized) NotFoundAsConfig = (KindTransient, errclass_ReasonOther)"
proof -
  note t = ClassifyError_first_matching_rule
    [of "Some err_not_found" NotFoundAsConfig err_not_found err_unrecognized]
  have h: "\<not> IsDeadlineExceeded err_not_found \<and> \<not> IsCanceled err_not_found \<and>
    \<not> IsConflict err_not_found \<and> \<not> IsAlreadyExists err_not_found \<and>
    \<not> IsForbidden err_not_found \<and> \<not> IsUnauthorized err_not_found \<and>
    \<not> IsInvalid err_not_found \<and> IsNotFound err_not_found"
    by (simp add: err_not_found_def)
  have p: "NotFoundAsConfig \<noteq> NotFoundAsTransient" by simp
  have n: "\<forall>(applies, verdict) \<in> set (spec_rules NotFoundAsConfig). \<not> applies err_unrecognized"
    by (simp add: spec_rules_def err_unrecognized_def)
  from t h p n show ?thesis by blast
qed

lemma Set_cond_same_status:
  assumes "map_of (conditions cs) ty = Some prev" "c_Status prev = st"
  shows "\<exists>c. map_of (conditions (Set_cond cs ty st rs msg)) ty = Some c \<and>
             c_LastTransitionTime c = c_LastTransitionTime prev \<and>
             c_Status c = st \<and> c_Reason c = rs \<and> c_Message c = msg \<and>
             c_ObservedGeneration c = observedGeneration cs"
  using assms by (auto simp: Set_cond_def Let_def isSame_def update_conv')

lemma Set_cond_noop:
  assumes "map_of (conditions cs) ty = Some prev" "c_Status prev = st" "c_Reason prev = rs"
    "c_Message prev = msg" "c_ObservedGeneration prev = observedGeneration cs"
  shows "Set_cond cs ty st rs msg = cs"
  using assms by (simp add: Set_cond_def Let_def isSame_def)

lemma Set_cond_status_differs:
  assumes "map_of (conditions cs) ty = Some prev" "c_Status prev \<noteq> st"
  shows "map_of (conditions (Set_cond cs ty st rs msg)) ty =
           Some \<lparr>c_Type = ty, c_Status = st, c_Reason = rs, c_Message = msg,
                 c_ObservedGeneration = observedGeneration cs,
                 c_LastTransitionTime = reconcileTime cs\<rparr>"
  using assms by (simp add: Set_cond_def Let_def isSame_def update_conv')

subsection \<open>Condition set\<close>

lemma sorted_insert_by_key:
  fixes f :: "'a \<Rightarrow> 'b::linorder"
  assumes "\<And>a b. lt a b \<longleftrightarrow> f a < f b" and "sorted (map f xs)"
  shows "sorted (map f (insert_by lt x xs))"
  using assms(2) by (induction xs) (auto simp: set_insert_by assms(1))

lemma sorted_sort_Slice_key:
  fixes f :: "'a \<Rightarrow> 'b::linorder"
  assumes "\<And>a b. lt a b \<longleftrightarrow> f a < f b"
  shows "sorted (map f (sort_Slice lt xs))"
  unfolding sort_Slice_def
  by (induction xs) (auto intro: sorted_insert_by_key [where f = f] simp: assms)

lemma typed_alist_update: "typed_alist m \<Longrightarrow> c_Type c = k \<Longrightarrow> typed_alist (AList.update k c m)"
proof -
  assume t: "typed_alist m" and c: "c_Type c = k"
  have "set (AList.update k c m) \<subseteq> insert (k, c) (set m)"
    by (induction m) auto
  then have "\<forall>(k', c') \<in> set (AList.update k c m). c_Type c' = k'"
    using t c unfolding typed_alist_def by auto
  then show ?thesis using t by (simp add: typed_alist_def distinct_update)
qed

lemma byType_foldl_typed:
  "typed_alist m0 \<Longrightarrow> typed_alist (foldl (\<lambda>byType c. AList.update (c_Type c) c byType) m0 conds)"
  by (induction conds arbitrary: m0) (auto simp: typed_alist_update)

lemma byType_foldl_keys:
  "fst ` set (foldl (\<lambda>byType c. AList.update (c_Type c) c byType) m0 conds)
     = fst ` set m0 \<union> c_Type ` set conds"
  by (induction conds arbitrary: m0) (auto simp: dom_update)

lemma byType_foldl_other:
  "k \<notin> c_Type ` set conds \<Longrightarrow>
   map_of (foldl (\<lambda>byType c. AList.update (c_Type c) c byType) m0 conds) k = map_of m0 k"
  by (induction conds arbitrary: m0) (auto simp: update_conv')

lemma byType_foldl_lookup:
  "distinct (map c_Type conds) \<Longrightarrow> prev \<in> set conds \<Longrightarrow>
   map_of (foldl (\<lambda>byType c. AList.update (c_Type c) c byType) m0 conds) (c_Type prev) = Some prev"
proof (induction conds arbitrary: m0)
  case Nil
  then show ?case by simp
next
  case (Cons c cs)
  show ?case
  proof (cases "prev = c")
    case True
    have "c_Type c \<notin> c_Type ` set cs" using Cons.prems(1) by auto
    then show ?thesis using True by (simp add: byType_foldl_other update_conv')
  next
    case False
    then show ?thesis using Cons by auto
  qed
qed

lemma typed_alist_length: "typed_alist m \<Longrightarrow> length m = card (fst ` set m)"
  unfolding typed_alist_def by (metis distinct_card length_map list.set_map)

lemma NewConditionSet_length:
  assumes "distinct (map c_Type conds)"
  shows "length (conditions (NewConditionSet conds gen t)) = length conds"
proof -
  let ?m = "foldl (\<lambda>byType c. AList.update (c_Type c) c byType) [] conds"
  have "typed_alist ?m" by (rule byType_foldl_typed) (simp add: typed_alist_def)
  then have "length ?m = card (fst ` set ?m)" by (rule typed_alist_length)
  also have "\<dots> = card (c_Type ` set conds)" by (simp add: byType_foldl_keys)
  also have "\<dots> = length conds" using assms by (metis distinct_card length_map list.set_map)
  finally show ?thesis by (simp add: NewConditionSet_def)
qed

lemma Changed_loop_same:
  "(\<And>prev. prev \<in> set conds \<Longrightarrow> map_of live (c_Type prev) = Some prev) \<Longrightarrow>
   \<not> Changed_loop live conds"
  by (induction conds) (auto simp: isSame_def)

lemma NewConditionSet_not_Changed:
  assumes "distinct (map c_Type conds)"
  shows "\<not> Changed (NewConditionSet conds gen t)"
proof -
  have "\<not> Changed_loop (conditions (NewConditionSet conds gen t)) conds"
    by (rule Changed_loop_same) (simp add: NewConditionSet_def byType_foldl_lookup assms)
  then show ?thesis
    using NewConditionSet_length [OF assms] by (simp add: Changed_def NewConditionSet_def)
qed

lemma Set_cond_fresh_noop:
  assumes "distinct (map c_Type conds)" "prev \<in> set conds" "c_ObservedGeneration prev = gen"
  shows "Set_cond (NewConditionSet conds gen t) (c_Type prev) (c_Status prev) (c_Reason prev)
           (c_Message prev) = NewConditionSet conds gen t"
proof (rule Set_cond_noop [where prev = prev])
  show "map_of (conditions (NewConditionSet conds gen t)) (c_Type prev) = Some prev"
    using assms by (simp add: NewConditionSet_def byType_foldl_lookup)
  show "c_ObservedGeneration prev = observedGeneration (NewConditionSet conds gen t)"
    using assms by (simp add: NewConditionSet_def)
qed simp_all

lemma Set_cond_typed:
  "typed_alist (conditions cs) \<Longrightarrow> typed_alist (conditions (Set_cond cs ty st rs msg))"
  by (auto simp: Set_cond_def Let_def typed_alist_update split: option.splits)

lemma map_of_Some_key: "map_of m k = Some v \<Longrightarrow> k \<in> fst ` set m"
  by (metis domI dom_map_of_conv_image_fst)

lemma Set_cond_keys:
  "fst ` set (conditions (Set_cond cs ty st rs msg)) = insert ty (fst ` set (conditions cs))"
  by (auto simp: Set_cond_def Let_def dom_update split: option.splits dest: map_of_Some_key)

lemma Set_calls_typed:
  "typed_alist (conditions cs) \<Longrightarrow> typed_alist (conditions (Set_calls cs calls))"
  by (induction cs calls rule: Set_calls.induct) (auto simp: Set_cond_typed)

lemma Set_calls_keys:
  "fst ` set (conditions (Set_calls cs calls)) = fst ` set (conditions cs) \<union> fst ` set calls"
  by (induction cs calls rule: Set_calls.induct) (auto simp: Set_cond_keys)

lemma Conditions_mset: "mset (Conditions cs) = mset (map snd (conditions cs))"
  by (simp add: Conditions_def mset_sort_Slice)

lemma typed_alist_types: "typed_alist m \<Longrightarrow> map c_Type (map snd m) = map fst m"
  unfolding typed_alist_def by (induction m) auto

lemma Conditions_types:
  assumes "typed_alist (conditions cs)"
  shows "set (map c_Type (Conditions cs)) = fst ` set (conditions cs)"
    and "distinct (map c_Type (Conditions cs))"
proof -
  have m: "mset (map c_Type (Conditions cs)) = mset (map fst (conditions cs))"
    using typed_alist_types [OF assms] by (metis Conditions_mset mset_map)
  show "set (map c_Type (Conditions cs)) = fst ` set (conditions cs)"
    using m by (metis list.set_map set_mset_mset)
  show "distinct (map c_Type (Conditions cs))"
    using m assms by (metis mset_eq_imp_distinct_iff typed_alist_def)
qed

lemma Conditions_sorted:
  assumes "typed_alist (conditions cs)"
  shows "sorted_wrt (\<lambda>a b. c_Type a < c_Type b) (Conditions cs)"
proof -
  have "sorted (map c_Type (Conditions cs))"
    unfolding Conditions_def by (rule sorted_sort_Slice_key) simp
  then have "sorted_wrt (<) (map c_Type (Conditions cs))"
    using Conditions_types(2) [OF assms] by (simp add: strict_sorted_iff)
  then show ?thesis by (simp add: sorted_wrt_map)
qed

text \<open>
  Claim C4. Let a condition of the given type exist in the live map. If its status
  equals the new status, the entry after \<open>Set\<close> carries the old transition time (and
  the new reason, message and generation). If moreover reason, message and observed
  generation agree, \<open>Set\<close> returns the condition set unchanged, so the entry and the
  value of \<open>Changed\<close> are untouched; on a freshly loaded set with pairwise different
  types \<open>Changed\<close> is false after such a call. If the status differs, the new entry's
  transition time is the pass's reconcile time.
\<close>

theorem Set_cond_transition_time:
  assumes "map_of (conditions cs) ty = Some prev"
  shows
   "(c_Status prev = st \<longrightarrow>
       (\<exists>c. map_of (conditions (Set_cond cs ty st rs msg)) ty = Some c \<and>
            c_LastTransitionTime c = c_LastTransitionTime prev \<and>
            c_Status c = st \<and> c_Reason c = rs \<and> c_Message c = msg \<and>
            c_ObservedGeneration c = observedGeneration cs)) \<and>
    (c_Status prev = st \<and> c_Reason prev = rs \<and> c_Message prev = msg \<and>
     c_ObservedGeneration prev = observedGeneration cs \<longrightarrow>
       Set_cond cs ty st rs msg = cs \<and>
       map_of (conditions (Set_cond cs ty st rs msg)) ty = Some prev \<and>
       Changed (Set_cond cs ty st rs msg) = Changed cs) \<and>
    (c_Status prev \<noteq> st \<longrightarrow>
       map_of (conditions (Set_cond cs ty st rs msg)) ty =
         Some \<lparr>c_Type = ty, c_Status = st, c_Reason = rs, c_Message = msg,
               c_ObservedGeneration = observedGeneration cs,
               c_LastTransitionTime = reconcileTime cs\<rparr>) \<and>
    (distinct (map c_Type conds) \<and> p \<in> set conds \<and> c_ObservedGeneration p = gen \<longrightarrow>
       \<not> Changed (Set_cond (NewConditionSet conds gen t) (c_Type p) (c_Status p)
                    (c_Reason p) (c_Message p)))"
proof (intro conjI impI)
  assume "c_Status prev = st"
  then show "\<exists>c. map_of (conditions (Set_cond cs ty st rs msg)) ty = Some c \<and>
            c_LastTransitionTime c = c_LastTransitionTime prev \<and>
            c_Status c = st \<and> c_Reason c = rs \<and> c_Message c = msg \<and>
            c_ObservedGeneration c = observedGeneration cs"
    using assms by (rule Set_cond_same_status [rotated])
next
  assume a: "c_Status prev = st \<and> c_Reason prev = rs \<and> c_Message prev = msg \<and>
     c_ObservedGeneration prev = observedGeneration cs"
  then show n: "Set_cond cs ty st rs msg = cs"
    using assms by (simp add: Set_cond_noop)
  show "map_of (conditions (Set_cond cs ty st rs msg)) ty = Some prev"
    using n assms by simp
  show "Changed (Set_cond cs ty st rs msg) = Changed cs" using n by simp
next
  assume "c_Status prev \<noteq> st"
  then show "map_of (conditions (Set_cond cs ty st rs msg)) ty =
         Some \<lparr>c_Type = ty, c_Status = st, c_Reason = rs, c_Message = msg,
               c_ObservedGeneration = observedGeneration cs,
               c_LastTransitionTime = reconcileTime cs\<rparr>"
    using assms by (rule Set_cond_status_differs [rotated])
next
  assume "distinct (map c_Type conds) \<and> p \<in> set conds \<and> c_ObservedGeneration p = gen"
  then show "\<not> Changed (Set_cond (NewConditionSet conds gen t) (c_Type p) (c_Status p)
                    (c_Reason p) (c_Message p))"
    by (simp add: Set_cond_fresh_noop NewConditionSet_not_Changed)
qed

theorem Set_cond_transition_time_witness:
  "map_of (conditions cs_example) ''Ready'' = Some cond_ready \<and>
   map_option c_LastTransitionTime
     (map_of (conditions (Set_cond cs_example ''Ready'' ConditionTrue ''Ok'' ''new'')) ''Ready'')
     = Some 100 \<and>
   Set_cond cs_example ''Ready'' ConditionTrue ''Ok'' ''old'' = cs_example \<and>
   \<not> Changed (Set_cond cs_example ''Ready'' ConditionTrue ''Ok'' ''old'') \<and>
   map_option c_LastTransitionTime
     (map_of (conditions (Set_cond cs_example ''Ready'' ConditionFalse ''Err'' ''bad'')) ''Ready'')
     = Some 200"
proof -
  have m: "map_of (conditions cs_example) ''Ready'' = Some cond_ready"
    by (simp add: cs_example_def NewConditionSet_def cond_ready_def)
  have f: "c_Status cond_ready = ConditionTrue" "c_Reason cond_ready = ''Ok''"
    "c_Message cond_ready = ''old''" "c_ObservedGeneration cond_ready = 5"
    "c_LastTransitionTime cond_ready = 100" "c_Type cond_ready = ''Ready''"
    "observedGeneration cs_example = 5" "reconcileTime cs_example = 200"
    by (simp_all add: cond_ready_def cs_example_def NewConditionSet_def)
  note t1 = Set_cond_transition_time [OF m, of ConditionTrue "''Ok''" "''new''" "[cond_ready]" cond_ready 5 200]
  note t2 = Set_cond_transition_time [OF m, of ConditionTrue "''Ok''" "''old''" "[cond_ready]" cond_ready 5 200]
  note t3 = Set_cond_transition_time [OF m, of ConditionFalse "''Err''" "''bad''" "[cond_ready]" cond_ready 5 200]
  have a: "map_option c_LastTransitionTime
     (map_of (conditions (Set_cond cs_example ''Ready'' ConditionTrue ''Ok'' ''new'')) ''Ready'')
     = Some 100"
    using t1 f by auto
  have b: "Set_cond cs_example ''Ready'' ConditionTrue ''Ok'' ''old'' = cs_example"
    using t2 f by simp
  have h: "distinct (map c_Type [cond_ready]) \<and> cond_ready \<in> set [cond_ready] \<and>
      c_ObservedGeneration cond_ready = 5"
    by (simp add: f)
  from t2 h have "\<not> Changed (Set_cond (NewConditionSet [cond_ready] 5 200) (c_Type cond_ready)
      (c_Status cond_ready) (c_Reason cond_ready) (c_Message cond_ready))"
    by blast
  then have c: "\<not> Changed (Set_cond cs_example ''Ready'' ConditionTrue ''Ok'' ''old'')"
    by (simp add: f cs_example_def)
  have d: "map_option c_LastTransitionTime
     (map_of (conditions (Set_cond cs_example ''Ready'' ConditionFalse ''Err'' ''bad'')) ''Ready'')
     = Some 200"
    using t3 f by simp
  show ?thesis using m a b c d by simp
qed

text \<open>
  Claim C9, amended. After loading any condition list and any sequence of \<open>Set\<close>
  calls, \<open>Conditions\<close> returns exactly the live conditions, strictly ascending by
  type; its types are the types of the loaded conditions and of the calls, so it holds
  no entry with an empty type provided no loaded condition and no call has one.
\<close>

theorem Conditions_sorted_by_Type:
  assumes "cs = Set_calls (NewConditionSet conds gen t) calls"
  shows "sorted_wrt (\<lambda>a b. c_Type a < c_Type b) (Conditions cs) \<and>
         mset (Conditions cs) = mset (map snd (conditions cs)) \<and>
         set (map c_Type (Conditions cs)) = c_Type ` set conds \<union> fst ` set calls \<and>
         ([] \<notin> c_Type ` set conds \<and> [] \<notin> fst ` set calls \<longrightarrow>
            (\<forall>c \<in> set (Conditions cs). c_Type c \<noteq> []))"
proof -
  have "typed_alist (conditions (NewConditionSet conds gen t))"
    unfolding NewConditionSet_def
    using byType_foldl_typed [of "[]" conds] by (simp add: typed_alist_def)
  then have ty: "typed_alist (conditions cs)" unfolding assms by (rule Set_calls_typed)
  have keys: "fst ` set (conditions cs) = c_Type ` set conds \<union> fst ` set calls"
    unfolding assms by (simp add: Set_calls_keys NewConditionSet_def byType_foldl_keys)
  have s: "set (map c_Type (Conditions cs)) = c_Type ` set conds \<union> fst ` set calls"
    using Conditions_types(1) [OF ty] keys by simp
  have "[] \<notin> c_Type ` set conds \<and> [] \<notin> fst ` set calls \<longrightarrow>
            (\<forall>c \<in> set (Conditions cs). c_Type c \<noteq> [])"
    using s by (metis Un_iff image_eqI list.set_map)
  then show ?thesis using Conditions_sorted [OF ty] Conditions_mset s by blast
qed

theorem Conditions_sorted_by_Type_witness:
  "map c_Type (Conditions (Set_calls (NewConditionSet [cond_ready] 5 200)
      [(''Zed'', ConditionTrue, ''Ok'', ''z''), (''Alpha'', ConditionTrue, ''Ok'', ''a'')]))
   = [''Alpha'', ''Ready'', ''Zed'']"
proof -
  let ?cs = "Set_calls (NewConditionSet [cond_ready] 5 200)
      [(''Zed'', ConditionTrue, ''Ok'', ''z''), (''Alpha'', ConditionTrue, ''Ok'', ''a'')]"
  note t = Conditions_sorted_by_Type [OF refl, of "[cond_ready]" 5 200
      "[(''Zed'', ConditionTrue, ''Ok'', ''z''), (''Alpha'', ConditionTrue, ''Ok'', ''a'')]"]
  have "sorted_wrt (<) (map c_Type (Conditions ?cs))" using t by (simp add: sorted_wrt_map)
  moreover have "set (map c_Type (Conditions ?cs)) = {''Alpha'', ''Ready'', ''Zed''}"
    using t by (auto simp: cond_ready_def)
  moreover have "sorted_wrt (<) [''Alpha'', ''Ready'', ''Zed'']" by simp
  ultimately show ?thesis
    by (metis strict_sorted_equal list.simps(15) empty_set)
qed

text \<open>
  Claim C9 as stated fails: \<open>Set\<close> with the empty string as type stores a condition
  whose type is empty, and \<open>Conditions\<close> returns it.
\<close>

theorem Conditions_empty_Type_counterexample:
  "\<not> (\<forall>c \<in> set (Conditions (Set_calls (NewConditionSet [] 1 200)
           [([], ConditionTrue, ''Ok'', ''ok'')])). c_Type c \<noteq> [])"
  by (simp add: NewConditionSet_def Set_cond_def Conditions_def sort_Slice_def)

subsection \<open>Log rate limiter\<close>

lemma delete_length_distinct:
  "distinct (map fst es) \<Longrightarrow> k \<in> fst ` set es \<Longrightarrow> Suc (length (AList.delete k es)) = length es"
  by (induction es) (auto simp: image_iff)

lemma set_delete_subset: "set (AList.delete k es) \<subseteq> set es"
  by (induction es) auto

lemma range_first_Some:
  assumes "es \<noteq> []"
  shows "\<exists>fp. range_first pick es = Some fp \<and> fp \<in> fst ` set es"
proof -
  have "pick es mod length es < length es" using assms by simp
  then have "es ! (pick es mod length es) \<in> set es" by (rule nth_mem)
  then show ?thesis using assms by (simp add: range_first_def)
qed

lemma evict_loop_result:
  assumes "0 \<le> sz" "distinct (map fst es)"
  shows "\<exists>r. evict_loop pick sz es = Some r \<and> set r \<subseteq> set es \<and> distinct (map fst r) \<and>
             int (length r) = min (int (length es)) sz \<and>
             (int (length es) \<le> sz \<longrightarrow> r = es)"
  using assms(2)
proof (induction "length es" arbitrary: es rule: less_induct)
  case less
  show ?case
  proof (cases "int (length es) > sz")
    case False
    then have "evict_loop pick sz es = Some es" by (subst evict_loop.simps) simp
    then show ?thesis using False less.prems by auto
  next
    case True
    then have ne: "es \<noteq> []" using assms(1) by auto
    then obtain fp where fp: "range_first pick es = Some fp" "fp \<in> fst ` set es"
      using range_first_Some by blast
    let ?es' = "AList.delete fp es"
    have len: "Suc (length ?es') = length es"
      using less.prems fp(2) by (rule delete_length_distinct)
    have d': "distinct (map fst ?es')" using less.prems by (rule distinct_delete)
    have "length ?es' < length es" using len by simp
    from less.hyps [OF this d'] obtain r where r:
      "evict_loop pick sz ?es' = Some r" "set r \<subseteq> set ?es'" "distinct (map fst r)"
      "int (length r) = min (int (length ?es')) sz"
      by blast
    have "evict_loop pick sz es = evict_loop pick sz ?es'"
      using True fp(1) by (subst evict_loop.simps) simp
    then have a: "evict_loop pick sz es = Some r" using r(1) by simp
    have b: "set r \<subseteq> set es" using r(2) set_delete_subset [of fp es] by (rule subset_trans)
    have c: "int (length r) = min (int (length es)) sz" using r(4) len True by linarith
    have e: "int (length es) \<le> sz \<longrightarrow> r = es" using True by simp
    show ?thesis using a b c e r(3) by (intro exI [of _ r] conjI)
  qed
qed

lemma unexpired_props:
  "set (unexpired now es) \<subseteq> set es"
  "distinct (map fst es) \<Longrightarrow> distinct (map fst (unexpired now es))"
  "(fp, na) \<in> set (unexpired now es) \<longleftrightarrow> (fp, na) \<in> set es \<and> now < na"
  "length (unexpired now es) \<le> length es"
  by (auto simp: unexpired_def distinct_map_filter)

lemma prune_result:
  assumes "0 \<le> l_size l" "distinct (map fst (l_entries l))"
  shows "\<exists>l'. prune pick l now = Some l' \<and> l_size l' = l_size l \<and>
           set (l_entries l') \<subseteq> set (unexpired now (l_entries l)) \<and>
           distinct (map fst (l_entries l')) \<and>
           int (length (l_entries l')) = min (int (length (unexpired now (l_entries l)))) (l_size l) \<and>
           (int (length (unexpired now (l_entries l))) \<le> l_size l \<longrightarrow>
              l_entries l' = unexpired now (l_entries l))"
proof -
  have "distinct (map fst (unexpired now (l_entries l)))"
    using assms(2) by (rule unexpired_props(2))
  from evict_loop_result [OF assms(1) this, of pick]
  obtain r where r: "evict_loop pick (l_size l) (unexpired now (l_entries l)) = Some r"
    "set r \<subseteq> set (unexpired now (l_entries l))" "distinct (map fst r)"
    "int (length r) = min (int (length (unexpired now (l_entries l)))) (l_size l)"
    "int (length (unexpired now (l_entries l))) \<le> l_size l \<longrightarrow> r = unexpired now (l_entries l)"
    by blast
  have "prune pick l now = Some (l\<lparr>l_entries := r\<rparr>)" using r(1) by (simp add: prune_def)
  then show ?thesis using r by auto
qed

lemma NewLimiter_inv: "limiter_inv (NewLimiter n)"
  by (simp add: limiter_inv_def NewLimiter_def defaultSize_def)

lemma Allow_disabled: "interval \<le> 0 \<Longrightarrow> Allow pick l fp now interval = Some (True, l)"
  by (simp add: Allow_def)

lemma Allow_blocked:
  "0 < interval \<Longrightarrow> map_of (l_entries l) fp = Some na \<Longrightarrow> now < na \<Longrightarrow>
   Allow pick l fp now interval = Some (False, l)"
  by (simp add: Allow_def)

lemma Allow_False:
  assumes "Allow pick l fp now interval = Some (False, l')"
  shows "l' = l \<and> 0 < interval \<and> (\<exists>na. map_of (l_entries l) fp = Some na \<and> now < na)"
  using assms
  by (auto simp: Allow_def Let_def split: if_splits option.splits)

lemma Allow_granted_no_prune:
  assumes "0 < interval"
    "\<not> (case map_of (l_entries l) fp of Some na \<Rightarrow> now < na | None \<Rightarrow> False)"
    "int (length (AList.update fp (now + interval) (l_entries l))) \<le> l_size l"
  shows "Allow pick l fp now interval =
           Some (True, l\<lparr>l_entries := AList.update fp (now + interval) (l_entries l)\<rparr>)"
  using assms by (simp add: Allow_def Let_def)

lemma Allow_granted_prune:
  assumes "0 < interval"
    "\<not> (case map_of (l_entries l) fp of Some na \<Rightarrow> now < na | None \<Rightarrow> False)"
    "int (length (AList.update fp (now + interval) (l_entries l))) > l_size l"
  shows "Allow pick l fp now interval =
           map_option (\<lambda>l2. (True, l2))
             (prune pick (l\<lparr>l_entries := AList.update fp (now + interval) (l_entries l)\<rparr>) now)"
  using assms by (simp add: Allow_def Let_def)

lemma length_update_existing:
  "map_of es k = Some v \<Longrightarrow> length (AList.update k v' es) = length es"
  by (induction es) (auto split: if_splits)

lemma length_update_new:
  "map_of es k = None \<Longrightarrow> length (AList.update k v' es) = Suc (length es)"
  by (induction es) (auto split: if_splits)

lemma Allow_inv:
  assumes "limiter_inv l"
  shows "\<exists>b l'. Allow pick l fp now interval = Some (b, l') \<and> limiter_inv l' \<and> l_size l' = l_size l"
proof -
  let ?l1 = "l\<lparr>l_entries := AList.update fp (now + interval) (l_entries l)\<rparr>"
  consider (off) "interval \<le> 0"
    | (blocked) "0 < interval" "case map_of (l_entries l) fp of Some na \<Rightarrow> now < na | None \<Rightarrow> False"
    | (fits) "0 < interval"
        "\<not> (case map_of (l_entries l) fp of Some na \<Rightarrow> now < na | None \<Rightarrow> False)"
        "int (length (l_entries ?l1)) \<le> l_size l"
    | (over) "0 < interval"
        "\<not> (case map_of (l_entries l) fp of Some na \<Rightarrow> now < na | None \<Rightarrow> False)"
        "int (length (l_entries ?l1)) > l_size l"
    by fastforce
  then show ?thesis
  proof cases
    case off
    then show ?thesis using assms by (auto simp: Allow_def)
  next
    case blocked
    then show ?thesis using assms by (auto simp: Allow_def)
  next
    case fits
    have "Allow pick l fp now interval = Some (True, ?l1)"
      using fits by (simp add: Allow_granted_no_prune)
    moreover have "limiter_inv ?l1"
      using assms fits(3) by (simp add: limiter_inv_def distinct_update)
    ultimately show ?thesis by auto
  next
    case over
    have d: "distinct (map fst (l_entries ?l1))" and z: "0 \<le> l_size ?l1"
      using assms by (simp_all add: limiter_inv_def distinct_update)
    from prune_result [OF z d, of pick now] obtain l' where l':
      "prune pick ?l1 now = Some l'" "l_size l' = l_size ?l1" "distinct (map fst (l_entries l'))"
      "int (length (l_entries l')) = min (int (length (unexpired now (l_entries ?l1)))) (l_size ?l1)"
      by blast
    have "Allow pick l fp now interval = Some (True, l')"
      using over l'(1) by (simp add: Allow_granted_prune)
    moreover have "limiter_inv l'"
      using assms l'(2,3,4) by (simp add: limiter_inv_def)
    ultimately show ?thesis using l'(2) by auto
  qed
qed

lemma update_mem: "(k, v) \<in> set (AList.update k v es)"
  by (induction es) auto

lemma Allow_True_granted:
  assumes "Allow pick l fp now interval = Some (True, l')" "0 < interval"
  shows "\<not> (case map_of (l_entries l) fp of Some na \<Rightarrow> now < na | None \<Rightarrow> False)"
  using assms by (auto simp: Allow_def split: if_splits)

lemma prune_in_Allow:
  assumes inv: "limiter_inv l" and pos: "0 < interval"
    and al: "Allow pick l fp now interval = Some (True, l')"
    and over: "int (length (AList.update fp (now + interval) (l_entries l))) > l_size l"
  shows "prune pick (l\<lparr>l_entries := AList.update fp (now + interval) (l_entries l)\<rparr>) now = Some l' \<and>
         (\<forall>(k, na) \<in> set (l_entries l'). now < na) \<and>
         set (l_entries l') \<subseteq> set (unexpired now (AList.update fp (now + interval) (l_entries l))) \<and>
         int (length (l_entries l')) =
           min (int (length (unexpired now (AList.update fp (now + interval) (l_entries l))))) (l_size l) \<and>
         (int (length (unexpired now (AList.update fp (now + interval) (l_entries l)))) \<le> l_size l \<longrightarrow>
            l_entries l' = unexpired now (AList.update fp (now + interval) (l_entries l))) \<and>
         l_entries l' \<noteq> []"
proof -
  let ?es1 = "AList.update fp (now + interval) (l_entries l)"
  let ?l1 = "l\<lparr>l_entries := ?es1\<rparr>"
  have d: "distinct (map fst (l_entries ?l1))" and z: "0 \<le> l_size ?l1"
    using inv by (simp_all add: limiter_inv_def distinct_update)
  from prune_result [OF z d, of pick now] obtain l2 where l2:
    "prune pick ?l1 now = Some l2" "set (l_entries l2) \<subseteq> set (unexpired now ?es1)"
    "int (length (l_entries l2)) = min (int (length (unexpired now ?es1))) (l_size l)"
    "int (length (unexpired now ?es1)) \<le> l_size l \<longrightarrow> l_entries l2 = unexpired now ?es1"
    by auto
  have "Allow pick l fp now interval = Some (True, l2)"
    using Allow_granted_prune [OF pos Allow_True_granted [OF al pos] over] l2(1) by simp
  then have eq: "l2 = l'" using al by simp
  have "(fp, now + interval) \<in> set (unexpired now ?es1)"
    using pos by (simp add: unexpired_props(3) update_mem)
  then have "0 < int (length (unexpired now ?es1))" by (cases "unexpired now ?es1") auto
  moreover have "0 < l_size l" using inv by (simp add: limiter_inv_def)
  ultimately have "0 < int (length (l_entries l2))" using l2(3) by linarith
  then have ne: "l_entries l2 \<noteq> []" by auto
  have "\<forall>(k, na) \<in> set (l_entries l2). now < na"
    using l2(2) unexpired_props(3) by blast
  then show ?thesis using l2 ne eq by simp
qed

lemma Allow_first:
  assumes inv: "limiter_inv l" and pos: "0 < interval" and new: "map_of (l_entries l) fp = None"
  shows "\<exists>l1. Allow pick l fp t0 interval = Some (True, l1) \<and>
           (map_of (l_entries l1) fp = Some (t0 + interval) \<or> map_of (l_entries l1) fp = None) \<and>
           (int (length (l_entries l)) < l_size l \<longrightarrow> map_of (l_entries l1) fp = Some (t0 + interval))"
proof -
  let ?es1 = "AList.update fp (t0 + interval) (l_entries l)"
  have nb: "\<not> (case map_of (l_entries l) fp of Some na \<Rightarrow> t0 < na | None \<Rightarrow> False)"
    using new by simp
  have len: "length ?es1 = Suc (length (l_entries l))" using new by (rule length_update_new)
  have m1: "map_of ?es1 fp = Some (t0 + interval)" by (simp add: update_conv')
  show ?thesis
  proof (cases "int (length ?es1) > l_size l")
    case False
    then have "Allow pick l fp t0 interval = Some (True, l\<lparr>l_entries := ?es1\<rparr>)"
      using Allow_granted_no_prune [OF pos nb] by simp
    then show ?thesis using m1 by simp
  next
    case True
    obtain b l1 where al: "Allow pick l fp t0 interval = Some (b, l1)"
      using Allow_inv [OF inv] by blast
    have "b" using al Allow_False [of pick l fp t0 interval l1] new by (cases b) auto
    then have al': "Allow pick l fp t0 interval = Some (True, l1)" using al by simp
    have sub: "set (l_entries l1) \<subseteq> set (unexpired t0 ?es1)"
      using prune_in_Allow [OF inv pos al' True] by simp
    have d: "distinct (map fst ?es1)" using inv by (simp add: limiter_inv_def distinct_update)
    have "map_of (l_entries l1) fp = Some v \<Longrightarrow> v = t0 + interval" for v
    proof -
      assume "map_of (l_entries l1) fp = Some v"
      then have "(fp, v) \<in> set ?es1"
        using sub unexpired_props(1) by (meson map_of_SomeD subsetD)
      then have "map_of ?es1 fp = Some v" using d by (rule map_of_is_SomeI [rotated])
      then show ?thesis using m1 by simp
    qed
    then have "map_of (l_entries l1) fp = Some (t0 + interval) \<or> map_of (l_entries l1) fp = None"
      by (cases "map_of (l_entries l1) fp") auto
    moreover have "\<not> int (length (l_entries l)) < l_size l" using True len by simp
    ultimately show ?thesis using al' by simp
  qed
qed

lemma Allow_each_blocked:
  assumes "0 < interval'" "map_of (l_entries l1) fp = Some na" "\<forall>t \<in> set ts. t < na"
  shows "Allow_each pick l1 fp interval' ts = Some (replicate (length ts) False, l1)"
  using assms(3) by (induction ts) (simp_all add: Allow_blocked [OF assms(1,2)])

lemma Allow_boundary:
  assumes inv: "limiter_inv l1" and pos: "0 < interval'"
    and m: "map_of (l_entries l1) fp = Some na" and t: "na \<le> t"
  shows "\<exists>l2. Allow pick l1 fp t interval' = Some (True, l2) \<and>
              map_of (l_entries l2) fp = Some (t + interval') \<and> l_size l2 = l_size l1"
proof -
  let ?es = "AList.update fp (t + interval') (l_entries l1)"
  have nb: "\<not> (case map_of (l_entries l1) fp of Some na \<Rightarrow> t < na | None \<Rightarrow> False)"
    using m t by simp
  have "length ?es = length (l_entries l1)" using m by (rule length_update_existing)
  then have "int (length ?es) \<le> l_size l1" using inv by (simp add: limiter_inv_def)
  then have "Allow pick l1 fp t interval' = Some (True, l1\<lparr>l_entries := ?es\<rparr>)"
    using Allow_granted_no_prune [OF pos nb] by simp
  then show ?thesis by (simp add: update_conv')
qed

text \<open>
  Claim C10. When \<open>Allow\<close> returns false, the limiter it leaves is the limiter it
  found: size and table are unchanged, so no next-allowed instant was refreshed, no
  entry created and nothing pruned or evicted. A call returns false only for a positive
  interval and a stored next-allowed instant after \<open>now\<close>.
\<close>

theorem Allow_blocked_leaves_limiter:
  assumes "Allow pick l fp now interval = Some (False, l')"
  shows "l' = l \<and> 0 < interval \<and> (\<exists>na. map_of (l_entries l) fp = Some na \<and> now < na)"
  using assms by (rule Allow_False)

theorem Allow_blocked_leaves_limiter_witness:
  "Allow (\<lambda>es. 0) lim_fp ''fp'' 109 10 = Some (False, lim_fp) \<and>
   map_of (l_entries lim_fp) ''fp'' = Some 110"
proof -
  have a: "Allow (\<lambda>es. 0) lim_fp ''fp'' 109 10 = Some (False, lim_fp)"
    by (simp add: Allow_def lim_fp_def)
  from Allow_blocked_leaves_limiter [OF a]
  have "\<exists>na. map_of (l_entries lim_fp) ''fp'' = Some na \<and> (109::int) < na" by simp
  then show ?thesis using a by (simp add: lim_fp_def)
qed

text \<open>
  Claim C7. A limiter from \<open>NewLimiter\<close> has a positive capacity and an empty table.
  On a limiter with positive capacity and at most that many entries, every \<open>Allow\<close>
  returns and leaves at most capacity entries. When a granted call's insertion pushes
  the table over capacity, the table after the call is the result of \<open>prune\<close>: it
  holds no expired entry, only unexpired entries of the table after insertion, exactly
  all of them when they fit the capacity (nothing unexpired is evicted then) and
  exactly capacity many otherwise, and it is not empty.
\<close>

theorem Allow_capacity_and_prune:
  "limiter_inv (NewLimiter n) \<and>
   (limiter_inv l \<longrightarrow>
      (\<exists>b l'. Allow pick l fp now interval = Some (b, l') \<and> limiter_inv l' \<and>
               l_size l' = l_size l \<and> int (length (l_entries l')) \<le> l_size l)) \<and>
   (limiter_inv l \<and> 0 < interval \<and> Allow pick l fp now interval = Some (True, l2) \<and>
    int (length (AList.update fp (now + interval) (l_entries l))) > l_size l \<longrightarrow>
      prune pick (l\<lparr>l_entries := AList.update fp (now + interval) (l_entries l)\<rparr>) now = Some l2 \<and>
      (\<forall>(k, na) \<in> set (l_entries l2). now < na) \<and>
      set (l_entries l2) \<subseteq> set (unexpired now (AList.update fp (now + interval) (l_entries l))) \<and>
      int (length (l_entries l2)) =
        min (int (length (unexpired now (AList.update fp (now + interval) (l_entries l))))) (l_size l) \<and>
      (int (length (unexpired now (AList.update fp (now + interval) (l_entries l)))) \<le> l_size l \<longrightarrow>
         l_entries l2 = unexpired now (AList.update fp (now + interval) (l_entries l))) \<and>
      l_entries l2 \<noteq> [])"
proof (intro conjI impI)
  show "limiter_inv (NewLimiter n)" by (rule NewLimiter_inv)
next
  assume "limiter_inv l"
  from Allow_inv [OF this, of pick fp now interval]
  show "\<exists>b l'. Allow pick l fp now interval = Some (b, l') \<and> limiter_inv l' \<and>
               l_size l' = l_size l \<and> int (length (l_entries l')) \<le> l_size l"
    by (auto simp: limiter_inv_def)
next
  assume a: "limiter_inv l \<and> 0 < interval \<and> Allow pick l fp now interval = Some (True, l2) \<and>
    int (length (AList.update fp (now + interval) (l_entries l))) > l_size l"
  then have inv: "limiter_inv l" and pos: "0 < interval"
    and al: "Allow pick l fp now interval = Some (True, l2)"
    and over: "int (length (AList.update fp (now + interval) (l_entries l))) > l_size l"
    by simp_all
  note p = prune_in_Allow [OF inv pos al over]
  show "prune pick (l\<lparr>l_entries := AList.update fp (now + interval) (l_entries l)\<rparr>) now = Some l2"
    using p by simp
  show "\<forall>(k, na) \<in> set (l_entries l2). now < na" using p by simp
  show "set (l_entries l2) \<subseteq> set (unexpired now (AList.update fp (now + interval) (l_entries l)))"
    using p by simp
  show "int (length (l_entries l2)) =
        min (int (length (unexpired now (AList.update fp (now + interval) (l_entries l))))) (l_size l)"
    using p by simp
  show "l_entries l2 \<noteq> []" using p by simp
  assume "int (length (unexpired now (AList.update fp (now + interval) (l_entries l)))) \<le> l_size l"
  then show "l_entries l2 = unexpired now (AList.update fp (now + interval) (l_entries l))"
    using p by simp
qed

lemma Allow_lim_expired:
  "Allow (\<lambda>es. 0) lim_expired ''new'' 120 10 = Some (True, lim_new)"
  by (simp add: Allow_def lim_expired_def lim_new_def prune_def unexpired_def evict_loop.simps)

theorem Allow_capacity_and_prune_witness:
  "limiter_inv lim_expired \<and>
   Allow (\<lambda>es. 0) lim_expired ''new'' 120 10 = Some (True, lim_new) \<and>
   int (length (AList.update ''new'' (120 + 10) (l_entries lim_expired))) > l_size lim_expired \<and>
   l_entries lim_new = unexpired 120 (AList.update ''new'' (120 + 10) (l_entries lim_expired)) \<and>
   l_entries lim_new \<noteq> [] \<and> limiter_inv lim_new"
proof -
  note t = Allow_capacity_and_prune [of 1 lim_expired "\<lambda>es. 0" "''new''" 120 10 lim_new]
  have i: "limiter_inv lim_expired" by (simp add: limiter_inv_def lim_expired_def)
  have a: "Allow (\<lambda>es. 0) lim_expired ''new'' 120 10 = Some (True, lim_new)"
    by (rule Allow_lim_expired)
  have o: "int (length (AList.update ''new'' (120 + 10) (l_entries lim_expired))) > l_size lim_expired"
    by (simp add: lim_expired_def)
  have u: "int (length (unexpired 120 (AList.update ''new'' (120 + 10) (l_entries lim_expired))))
      \<le> l_size lim_expired"
    by (simp add: lim_expired_def unexpired_def)
  have p: "(0::int) < 10" by simp
  from t i a o u p
  have "l_entries lim_new = unexpired 120 (AList.update ''new'' (120 + 10) (l_entries lim_expired))"
    and "l_entries lim_new \<noteq> []"
    by blast+
  moreover from t i a have "limiter_inv lim_new" by auto
  ultimately show ?thesis using i a o by simp
qed

text \<open>
  Claim C6, amended. With \<open>interval \<le> 0\<close>, \<open>Allow\<close> returns true and leaves the
  limiter as it was. With \<open>interval > 0\<close>, on a limiter within its positive capacity,
  the first \<open>Allow\<close> for a fingerprint returns true and stores \<open>t0 + interval\<close> for
  it, unless the capacity prune evicted that very entry, which cannot happen when the
  table had room. While that entry is stored, every \<open>Allow\<close> for the fingerprint at
  an instant before \<open>t0 + interval\<close> returns false and changes nothing, and \<open>Allow\<close>
  at \<open>t0 + interval\<close> or later returns true and stores the instant of that grant plus
  the interval.
\<close>

theorem Allow_window:
  "(interval \<le> 0 \<longrightarrow> Allow pick l fp now interval = Some (True, l)) \<and>
   (limiter_inv l \<and> 0 < interval \<and> map_of (l_entries l) fp = None \<longrightarrow>
      (\<exists>l1. Allow pick l fp t0 interval = Some (True, l1) \<and>
            (map_of (l_entries l1) fp = Some (t0 + interval) \<or> map_of (l_entries l1) fp = None) \<and>
            (int (length (l_entries l)) < l_size l \<longrightarrow>
               map_of (l_entries l1) fp = Some (t0 + interval)))) \<and>
   (0 < interval \<and> map_of (l_entries l') fp = Some (t0 + interval) \<and>
    (\<forall>t \<in> set ts. t < t0 + interval) \<longrightarrow>
      Allow_each pick l' fp interval ts = Some (replicate (length ts) False, l')) \<and>
   (limiter_inv l' \<and> 0 < interval \<and> map_of (l_entries l') fp = Some (t0 + interval) \<and>
    t0 + interval \<le> t \<longrightarrow>
      (\<exists>l2. Allow pick l' fp t interval = Some (True, l2) \<and>
            map_of (l_entries l2) fp = Some (t + interval)))"
proof (intro conjI impI)
  assume "interval \<le> 0"
  then show "Allow pick l fp now interval = Some (True, l)" by (rule Allow_disabled)
next
  assume "limiter_inv l \<and> 0 < interval \<and> map_of (l_entries l) fp = None"
  then show "\<exists>l1. Allow pick l fp t0 interval = Some (True, l1) \<and>
            (map_of (l_entries l1) fp = Some (t0 + interval) \<or> map_of (l_entries l1) fp = None) \<and>
            (int (length (l_entries l)) < l_size l \<longrightarrow>
               map_of (l_entries l1) fp = Some (t0 + interval))"
    using Allow_first [of l interval fp pick t0] by blast
next
  assume "0 < interval \<and> map_of (l_entries l') fp = Some (t0 + interval) \<and>
    (\<forall>t \<in> set ts. t < t0 + interval)"
  then show "Allow_each pick l' fp interval ts = Some (replicate (length ts) False, l')"
    using Allow_each_blocked [of interval l' fp "t0 + interval" ts pick] by blast
next
  assume "limiter_inv l' \<and> 0 < interval \<and> map_of (l_entries l') fp = Some (t0 + interval) \<and>
    t0 + interval \<le> t"
  then show "\<exists>l2. Allow pick l' fp t interval = Some (True, l2) \<and>
            map_of (l_entries l2) fp = Some (t + interval)"
    using Allow_boundary [of l' interval fp "t0 + interval" t pick] by blast
qed

theorem Allow_window_witness:
  "Allow (\<lambda>es. 0) (NewLimiter 10) ''fp'' 100 0 = Some (True, NewLimiter 10) \<and>
   Allow (\<lambda>es. 0) (NewLimiter 10) ''fp'' 100 10 = Some (True, lim_fp) \<and>
   Allow_each (\<lambda>es. 0) lim_fp ''fp'' 10 [100, 105, 109] = Some ([False, False, False], lim_fp) \<and>
   Allow (\<lambda>es. 0) lim_fp ''fp'' 110 10 = Some (True, lim_fp2)"
proof -
  have i0: "limiter_inv (NewLimiter 10)" and i1: "limiter_inv lim_fp"
    by (simp_all add: limiter_inv_def NewLimiter_def lim_fp_def)
  have m0: "map_of (l_entries (NewLimiter 10)) ''fp'' = None" by (simp add: NewLimiter_def)
  have m1: "map_of (l_entries lim_fp) ''fp'' = Some (100 + 10)" by (simp add: lim_fp_def)
  have r: "int (length (l_entries (NewLimiter 10))) < l_size (NewLimiter 10)"
    by (simp add: NewLimiter_def)
  have w: "\<forall>t \<in> set [100, 105, 109 :: int]. t < 100 + 10" by simp
  have p: "(0::int) < 10" "(0::int) \<le> 0" "(100::int) + 10 \<le> 110" by simp_all
  note t0 = Allow_window [of 0 "\<lambda>es. 0" "NewLimiter 10" "''fp''" 100]
  note t1 = Allow_window [of 10 "\<lambda>es. 0" "NewLimiter 10" "''fp''" 100 100 lim_fp
      "[100, 105, 109]" 110]
  have a: "Allow (\<lambda>es. 0) (NewLimiter 10) ''fp'' 100 0 = Some (True, NewLimiter 10)"
    using t0 p by blast
  have b: "Allow (\<lambda>es. 0) (NewLimiter 10) ''fp'' 100 10 = Some (True, lim_fp)"
    by (simp add: Allow_def NewLimiter_def lim_fp_def)
  have c: "Allow_each (\<lambda>es. 0) lim_fp ''fp'' 10 [100, 105, 109]
      = Some (replicate (length [100, 105, 109 :: int]) False, lim_fp)"
    using t1 p m1 w by blast
  obtain l2 where d: "Allow (\<lambda>es. 0) lim_fp ''fp'' 110 10 = Some (True, l2)"
    using t1 i1 p m1 by blast
  have "Allow (\<lambda>es. 0) lim_fp ''fp'' 110 10 = Some (True, lim_fp2)"
    by (simp add: Allow_def lim_fp_def lim_fp2_def)
  then show ?thesis using a b c by (simp add: numeral_3_eq_3)
qed

text \<open>
  Claim C6 as stated fails on a full table: the capacity prune may evict the entry the
  granted call has just stored, and the next call inside the window is granted again.
\<close>

theorem Allow_window_counterexample:
  "Allow (\<lambda>es. 0) (NewLimiter 1) ''a'' 0 3600 = Some (True, lim_a) \<and>
   Allow (\<lambda>es. 1) lim_a ''b'' 0 10 = Some (True, lim_a) \<and>
   (0::int) \<le> 5 \<and> (5::int) < 0 + 10 \<and>
   Allow (\<lambda>es. 1) lim_a ''b'' 5 10 = Some (True, lim_a)"
  by (simp add: Allow_def NewLimiter_def lim_a_def prune_def unexpired_def evict_loop.simps
      range_first_def)

subsection \<open>Failure samples\<close>












subsection \<open>Status persistence\<close>

lemma cs_pass_unchanged: "cs_pass = NewConditionSet conds_ready 7 200"
  by (simp add: cs_pass_def markReady_def markSecretAvailable_def NewConditionSet_def
      conds_ready_def Set_cond_def isSame_def Let_def)

lemma cs_pass_not_Changed: "\<not> Changed cs_pass"
  unfolding cs_pass_unchanged
  by (rule NewConditionSet_not_Changed) (simp add: conds_ready_def)

text \<open>
  Claim C5, amended. \<open>patchStatusIfChanged\<close> issues the patch call, once, if and only
  if the condition set is present and \<open>Changed\<close>, or the desired hash is not empty and
  differs from the stored one. Without a call it returns (false, nil) and leaves the
  status untouched; it reports a patch exactly when the call was issued and succeeded.
\<close>

theorem patchStatusIfChanged_issues_patch:
  "(patch_calls (patchStatusIfChanged setc cp identity cs desiredHash) \<noteq> []) =
     ((case cs of None \<Rightarrow> False | Some c \<Rightarrow> Changed c) \<or>
      (desiredHash \<noteq> [] \<and> ObservedSourceSecretHash identity \<noteq> desiredHash)) \<and>
   length (patch_calls (patchStatusIfChanged setc cp identity cs desiredHash)) \<le> 1 \<and>
   (patch_calls (patchStatusIfChanged setc cp identity cs desiredHash) = [] \<longrightarrow>
      patchStatusIfChanged setc cp identity cs desiredHash =
        \<lparr>patched = False, patch_err = None, status_after = identity, patch_calls = []\<rparr>) \<and>
   patched (patchStatusIfChanged setc cp identity cs desiredHash) =
     (patch_calls (patchStatusIfChanged setc cp identity cs desiredHash) \<noteq> [] \<and>
      cp (status_after (patchStatusIfChanged setc cp identity cs desiredHash)) = None)"
  by (auto simp: patchStatusIfChanged_def Let_def split: option.splits prod.splits)

theorem patchStatusIfChanged_issues_patch_witness:
  "\<not> Changed cs_pass \<and>
   patch_calls (patchStatusIfChanged (\<lambda>conds c. conds) (\<lambda>st. None) status_ready
      (Some cs_pass) ''hashA'') = [] \<and>
   patchStatusIfChanged (\<lambda>conds c. conds) (\<lambda>st. None) status_ready (Some cs_pass) ''hashA''
     = \<lparr>patched = False, patch_err = None, status_after = status_ready, patch_calls = []\<rparr>"
proof -
  note t = patchStatusIfChanged_issues_patch
    [of "\<lambda>conds c. conds" "\<lambda>st. None" status_ready "Some cs_pass" "''hashA''"]
  have h: "ObservedSourceSecretHash status_ready = ''hashA''" by (simp add: status_ready_def)
  have e: "patch_calls (patchStatusIfChanged (\<lambda>conds c. conds) (\<lambda>st. None) status_ready
      (Some cs_pass) ''hashA'') = []"
    using t cs_pass_not_Changed h by simp
  then show ?thesis using t cs_pass_not_Changed by blast
qed

text \<open>
  Claim C5 as stated fails: when the source content changed and the conditions did not,
  \<open>Changed\<close> is false and the patch is issued all the same, to store the new hash.
\<close>

theorem patchStatusIfChanged_hash_counterexample:
  "\<not> Changed cs_pass \<and>
   patch_calls (patchStatusIfChanged (\<lambda>conds c. conds) (\<lambda>st. None) status_ready
      (Some cs_pass) ''hashB'') \<noteq> [] \<and>
   patched (patchStatusIfChanged (\<lambda>conds c. conds) (\<lambda>st. None) status_ready
      (Some cs_pass) ''hashB'')"
  using cs_pass_not_Changed
  by (simp add: patchStatusIfChanged_def status_ready_def Let_def)

end
